theory Spec2Isabelle
  imports Main
begin

text \<open>
  The ledger and categorization engine of the finance application: the import of bank
  statement rows, the rules that assign categories, and the generation of double-entry
  postings. Each service is a function on a database session that returns the new
  session and its result, or the exception it raises. The properties are stated for a
  service run inside \<^verbatim>\<open>session_scope\<close>, the way every caller in the application runs it.
\<close>

section \<open>Ledger store (finance_app/models/models.py)\<close>

text \<open>
  Amounts are \<^verbatim>\<open>Numeric(14, 2)\<close> columns: a value is kept as its number of hundredths, so
  \<^verbatim>\<open>-42.50\<close> is \<open>-4250\<close>. Comparison, sign test and \<^verbatim>\<open>abs\<close> on such values are those of the
  integers. A date is (year, month, day).
\<close>

type_synonym money = int
type_synonym date = "nat \<times> nat \<times> nat"

record account =
  acc_id :: nat
  acc_name :: string
  acc_type :: string

record category =
  cat_id :: nat
  cat_name :: string
  cat_parent_id :: "nat option"

record transaction =
  txn_id :: nat
  txn_date :: date
  description :: string
  amount :: money
  source_account_id :: nat
  normalized_memo :: "string option"
  category_id :: "nat option"

text \<open>
  The surrogate key of a posting is read nowhere in the services (the outer join of
  \<^verbatim>\<open>generate_all_postings\<close> only tests whether a posting row exists), so a posting row is
  its four data columns.
\<close>

record posting =
  transaction_id :: nat
  account_id :: nat
  debit :: money
  credit :: money

record rule =
  rule_id :: nat
  pattern :: string
  rule_category_id :: nat
  amount_min :: "money option"
  amount_max :: "money option"
  priority :: int
  active :: bool

text \<open>The committed tables. Period closures are read by none of the services.\<close>

record ledger =
  accounts :: "account list"
  categories :: "category list"
  transactions :: "transaction list"
  postings :: "posting list"
  rules :: "rule list"

datatype error = AttributeError | ValueError | KeyError | ReError | IntegrityError

section \<open>Sessions and units of work (finance_app/db/session.py, finance_app/db/context.py)\<close>

text \<open>
  A session holds the rows its database transaction sees (\<open>db\<close>) and the changes that were
  made on objects but not yet sent to the database: objects given to \<^verbatim>\<open>session.add\<close>
  (\<open>new_transactions\<close>, \<open>new_postings\<close>) and attribute writes on loaded transactions
  (\<open>dirty\<close>, pairs of transaction key and new category key). \<^verbatim>\<open>create_session_factory\<close>
  builds sessions with \<^verbatim>\<open>autoflush=False\<close>; the flag is kept as a field so that the
  services are modelled for either setting.
\<close>

text \<open>
  The amount of a transaction that was added and not yet flushed is the float that the
  importer computed: a number, kept as the hundredths that the amount column gives
  back, or not-a-number. The database stores not-a-number as \<^verbatim>\<open>NULL\<close>, which the amount
  column refuses. Infinities are left out.
\<close>

datatype float_value = Amount money | NaN

record new_transaction =
  nt_date :: date
  nt_description :: string
  nt_amount :: float_value
  nt_source_account_id :: nat

record session =
  autoflush :: bool
  db :: ledger
  new_transactions :: "new_transaction list"
  new_postings :: "posting list"
  dirty :: "(nat \<times> nat) list"

text \<open>Key given by SQLite to a new row of an \<^verbatim>\<open>INTEGER PRIMARY KEY\<close> table: largest key plus one.\<close>

definition next_id :: "nat list \<Rightarrow> nat" where
  "next_id ids = Suc (fold max ids 0)"

text \<open>The inserts of the pending transactions; a refused row raises \<^verbatim>\<open>IntegrityError\<close>.\<close>

fun insert_transactions ::
  "transaction list \<Rightarrow> new_transaction list \<Rightarrow> error + transaction list" where
  "insert_transactions rows [] = Inr rows"
| "insert_transactions rows (n # ns) =
     (case nt_amount n of
        NaN \<Rightarrow> Inl IntegrityError
      | Amount a \<Rightarrow>
          insert_transactions
            (rows @ [\<lparr>txn_id = next_id (map txn_id rows), txn_date = nt_date n,
                      description = nt_description n, amount = a,
                      source_account_id = nt_source_account_id n, normalized_memo = None,
                      category_id = None\<rparr>]) ns)"

definition set_category :: "nat \<times> nat \<Rightarrow> transaction list \<Rightarrow> transaction list" where
  "set_category u rows =
     map (\<lambda>t. if txn_id t = fst u then t\<lparr>category_id := Some (snd u)\<rparr> else t) rows"

text \<open>
  \<^verbatim>\<open>session.flush()\<close>: the pending updates and inserts reach the database, or the
  database refuses one of them and the flush raises.
\<close>

definition flush :: "session \<Rightarrow> error + session" where
  "flush s =
     (case insert_transactions (fold set_category (dirty s) (transactions (db s)))
             (new_transactions s) of
        Inl e \<Rightarrow> Inl e
      | Inr rows \<Rightarrow>
          Inr (s\<lparr>db := (db s)\<lparr>transactions := rows,
                               postings := postings (db s) @ new_postings s\<rparr>,
                 new_transactions := [], new_postings := [], dirty := []\<rparr>))"

text \<open>What a query or a bulk statement does before it runs.\<close>

definition autoflushed :: "session \<Rightarrow> error + session" where
  "autoflushed s = (if autoflush s then flush s else Inr s)"

definition open_session :: "bool \<Rightarrow> ledger \<Rightarrow> session" where
  "open_session af l =
     \<lparr>autoflush = af, db = l, new_transactions = [], new_postings = [], dirty = []\<rparr>"

text \<open>\<^verbatim>\<open>session.commit()\<close>: a flush, then the rows of the session become the ledger.\<close>

definition commit :: "session \<Rightarrow> error + ledger" where
  "commit s = (case flush s of Inl e \<Rightarrow> Inl e | Inr s' \<Rightarrow> Inr (db s'))"

text \<open>
  \<^verbatim>\<open>session_scope\<close>: the body runs on a new session; its changes are committed when it
  returns. When the body or the commit raises, the changes are rolled back and the
  exception is raised again.
\<close>

definition session_scope ::
  "bool \<Rightarrow> (session \<Rightarrow> error + session \<times> 'a) \<Rightarrow> ledger \<Rightarrow> ledger \<times> (error + 'a)" where
  "session_scope af body l =
     (case body (open_session af l) of
        Inl e \<Rightarrow> (l, Inl e)
      | Inr (s, r) \<Rightarrow>
          (case commit s of
             Inl e \<Rightarrow> (l, Inl e)
           | Inr l' \<Rightarrow> (l', Inr r)))"

section \<open>Posting generator (finance_app/services/posting_generator.py)\<close>

text \<open>\<^verbatim>\<open>session.query(m.Posting).filter(m.Posting.transaction_id == i).delete()\<close>: a bulk
  \<^verbatim>\<open>DELETE\<close> on the rows of the database.\<close>

definition delete_postings :: "session \<Rightarrow> nat \<Rightarrow> error + session" where
  "delete_postings s i =
     (case autoflushed s of
        Inl e \<Rightarrow> Inl e
      | Inr s' \<Rightarrow>
          Inr (s'\<lparr>db := (db s')\<lparr>postings :=
                 filter (\<lambda>p. transaction_id p \<noteq> i) (postings (db s'))\<rparr>\<rparr>))"

text \<open>\<^verbatim>\<open>session.get(m.Category, i)\<close>.\<close>

definition get_category :: "session \<Rightarrow> nat \<Rightarrow> category option" where
  "get_category s i = find (\<lambda>c. cat_id c = i) (categories (db s))"

text \<open>\<^verbatim>\<open>session.query(m.Account).filter_by(name=n).first()\<close>.\<close>

definition account_first :: "session \<Rightarrow> string \<Rightarrow> error + session \<times> account option" where
  "account_first s n =
     (case autoflushed s of
        Inl e \<Rightarrow> Inl e
      | Inr s' \<Rightarrow> Inr (s', find (\<lambda>a. acc_name a = n) (accounts (db s'))))"

text \<open>\<^verbatim>\<open>a = m.Account(name=n, type=ty); session.add(a); session.flush()\<close>.\<close>

definition add_account_flush :: "session \<Rightarrow> string \<Rightarrow> string \<Rightarrow> error + session \<times> account" where
  "add_account_flush s n ty =
     (case flush s of
        Inl e \<Rightarrow> Inl e
      | Inr s' \<Rightarrow>
          (let a = \<lparr>acc_id = next_id (map acc_id (accounts (db s'))), acc_name = n,
                    acc_type = ty\<rparr>
           in Inr (s'\<lparr>db := (db s')\<lparr>accounts := accounts (db s') @ [a]\<rparr>\<rparr>, a)))"

definition add_posting :: "session \<Rightarrow> posting \<Rightarrow> session" where
  "add_posting s p = s\<lparr>new_postings := new_postings s @ [p]\<rparr>"

text \<open>\<^verbatim>\<open>if transaction.category_id:\<close> takes the else branch on \<^verbatim>\<open>None\<close> and on \<^verbatim>\<open>0\<close>.\<close>

definition truthy_id :: "nat option \<Rightarrow> nat option" where
  "truthy_id v = (case v of None \<Rightarrow> None | Some i \<Rightarrow> if i = 0 then None else Some i)"

text \<open>
  The counterpart account of the two branches: the account named after the category,
  created when absent, or the general account, whose absence makes
  \<^verbatim>\<open>expense_account.id\<close> raise. A category key without a row makes \<^verbatim>\<open>category.name\<close> raise.
\<close>

definition counterpart_account ::
  "session \<Rightarrow> transaction \<Rightarrow> string \<Rightarrow> string \<Rightarrow> string \<Rightarrow> error + session \<times> account" where
  "counterpart_account s txn prefix general ty =
     (case truthy_id (category_id txn) of
        Some c \<Rightarrow>
          (case get_category s c of
             None \<Rightarrow> Inl AttributeError
           | Some cat \<Rightarrow>
               (case account_first s (prefix @ cat_name cat) of
                  Inl e \<Rightarrow> Inl e
                | Inr (s', Some a) \<Rightarrow> Inr (s', a)
                | Inr (s', None) \<Rightarrow> add_account_flush s' (prefix @ cat_name cat) ty))
      | None \<Rightarrow>
          (case account_first s general of
             Inl e \<Rightarrow> Inl e
           | Inr (s', Some a) \<Rightarrow> Inr (s', a)
           | Inr (s', None) \<Rightarrow> Inl AttributeError))"

definition generate_postings_for_transaction ::
  "session \<Rightarrow> transaction \<Rightarrow> error + session \<times> nat" where
  "generate_postings_for_transaction session txn =
     (case delete_postings session (txn_id txn) of
        Inl e \<Rightarrow> Inl e
      | Inr s1 \<Rightarrow>
          if amount txn < 0 then
            (case counterpart_account s1 txn ''Expense:'' ''Expenses'' ''expense'' of
               Inl e \<Rightarrow> Inl e
             | Inr (s2, expense_account) \<Rightarrow>
                 (let posting1 = \<lparr>transaction_id = txn_id txn,
                                  account_id = source_account_id txn,
                                  debit = 0, credit = \<bar>amount txn\<bar>\<rparr>;
                      posting2 = \<lparr>transaction_id = txn_id txn,
                                  account_id = acc_id expense_account,
                                  debit = \<bar>amount txn\<bar>, credit = 0\<rparr>
                  in Inr (add_posting (add_posting s2 posting1) posting2, 2)))
          else
            (case counterpart_account s1 txn ''Income:'' ''Income'' ''income'' of
               Inl e \<Rightarrow> Inl e
             | Inr (s2, income_account) \<Rightarrow>
                 (let posting1 = \<lparr>transaction_id = txn_id txn,
                                  account_id = source_account_id txn,
                                  debit = \<bar>amount txn\<bar>, credit = 0\<rparr>;
                      posting2 = \<lparr>transaction_id = txn_id txn,
                                  account_id = acc_id income_account,
                                  debit = 0, credit = \<bar>amount txn\<bar>\<rparr>
                  in Inr (add_posting (add_posting s2 posting1) posting2, 2))))"

definition postings_of :: "ledger \<Rightarrow> nat \<Rightarrow> posting list" where
  "postings_of l i = filter (\<lambda>p. transaction_id p = i) (postings l)"

text \<open>
  \<^verbatim>\<open>generate_all_postings\<close>: the outer join keeps the transactions without a posting
  row, \<^verbatim>\<open>limit\<close> rows of them, in table order; the loop runs the generator on each.
\<close>

fun generate_loop :: "transaction list \<Rightarrow> session \<Rightarrow> nat \<Rightarrow> error + session \<times> nat" where
  "generate_loop [] s count = Inr (s, count)"
| "generate_loop (txn # txns) s count =
     (case generate_postings_for_transaction s txn of
        Inl e \<Rightarrow> Inl e
      | Inr (s', _) \<Rightarrow> generate_loop txns s' (count + 1))"

definition generate_all_postings :: "session \<Rightarrow> nat \<Rightarrow> error + session \<times> nat" where
  "generate_all_postings session limit =
     (case autoflushed session of
        Inl e \<Rightarrow> Inl e
      | Inr s1 \<Rightarrow>
          (let txns = take limit
                        (filter (\<lambda>t. \<not> (\<exists>p \<in> set (postings (db s1)).
                                            transaction_id p = txn_id t))
                           (transactions (db s1)))
           in generate_loop txns s1 0))"

section \<open>Rules engine (finance_app/services/rules_engine.py)\<close>

text \<open>
  \<^verbatim>\<open>re.search(pattern, description, flags=re.IGNORECASE)\<close> belongs to Python's library,
  not to the repository: it is a parameter of the model. \<open>Inl\<close> is \<^verbatim>\<open>re.error\<close>, raised
  for a pattern that does not compile; \<open>Inr b\<close> tells whether a match was found.
\<close>

type_synonym re_search = "string \<Rightarrow> string \<Rightarrow> error + bool"

record rule_match =
  rm_transaction_id :: nat
  rm_rule_id :: nat
  rm_category_id :: nat

text \<open>
  \<^verbatim>\<open>_rule_matches\<close>. The source compares the amounts after \<^verbatim>\<open>float\<close>; on values of at
  most fourteen digits with two decimals the conversion keeps the order, so the
  comparisons are those of the amounts.
\<close>

definition rule_matches :: "re_search \<Rightarrow> rule \<Rightarrow> string \<Rightarrow> money \<Rightarrow> error + bool" where
  "rule_matches search r descr amt =
     (if \<not> active r then Inr False
      else case search (pattern r) descr of
             Inl e \<Rightarrow> Inl e
           | Inr found \<Rightarrow>
               if \<not> found then Inr False
               else if (case amount_min r of None \<Rightarrow> False | Some lo \<Rightarrow> amt < lo) then Inr False
               else if (case amount_max r of None \<Rightarrow> False | Some hi \<Rightarrow> amt > hi) then Inr False
               else Inr True)"

definition date_key :: "date \<Rightarrow> int" where
  "date_key d = (case d of (y, m, dd) \<Rightarrow> int y * 10000 + int m * 100 + int dd)"

text \<open>The inner loop of \<^verbatim>\<open>dry_run_matches\<close>: the first rule that matches, then \<^verbatim>\<open>break\<close>.\<close>

fun dry_run_rules :: "re_search \<Rightarrow> rule list \<Rightarrow> transaction \<Rightarrow> error + rule_match option" where
  "dry_run_rules search [] txn = Inr None"
| "dry_run_rules search (r # rs) txn =
     (case rule_matches search r (description txn) (amount txn) of
        Inl e \<Rightarrow> Inl e
      | Inr True \<Rightarrow>
          Inr (Some \<lparr>rm_transaction_id = txn_id txn, rm_rule_id = rule_id r,
                     rm_category_id = rule_category_id r\<rparr>)
      | Inr False \<Rightarrow> dry_run_rules search rs txn)"

fun dry_run_loop ::
  "re_search \<Rightarrow> rule list \<Rightarrow> transaction list \<Rightarrow> rule_match list \<Rightarrow> error + rule_match list" where
  "dry_run_loop search rs [] results = Inr results"
| "dry_run_loop search rs (txn # txns) results =
     (case dry_run_rules search rs txn of
        Inl e \<Rightarrow> Inl e
      | Inr None \<Rightarrow> dry_run_loop search rs txns results
      | Inr (Some m) \<Rightarrow> dry_run_loop search rs txns (results @ [m]))"

text \<open>
  The transactions \<^verbatim>\<open>dry_run_matches\<close> looks at: uncategorized, latest first, \<^verbatim>\<open>limit\<close>
  rows. The database promises no order among rows with equal sort keys; here they keep
  the order of the table.
\<close>

definition dry_run_transactions :: "ledger \<Rightarrow> nat \<Rightarrow> transaction list" where
  "dry_run_transactions l limit =
     take limit (sort_key (\<lambda>t. - date_key (txn_date t))
                   (filter (\<lambda>t. category_id t = None) (transactions l)))"

text \<open>The active rules by ascending priority; rules of equal priority keep table order.\<close>

definition active_rules :: "ledger \<Rightarrow> rule list" where
  "active_rules l = sort_key priority (filter active (rules l))"

definition dry_run_matches ::
  "re_search \<Rightarrow> session \<Rightarrow> nat \<Rightarrow> error + session \<times> rule_match list" where
  "dry_run_matches search session limit =
     (case autoflushed session of
        Inl e \<Rightarrow> Inl e
      | Inr s1 \<Rightarrow>
          (let txns = dry_run_transactions (db s1) limit
           in case autoflushed s1 of
                Inl e \<Rightarrow> Inl e
              | Inr s2 \<Rightarrow>
                  (case dry_run_loop search (active_rules (db s2)) txns [] of
                     Inl e \<Rightarrow> Inl e
                   | Inr results \<Rightarrow> Inr (s2, results))))"

text \<open>The inner loop of \<^verbatim>\<open>apply_rules\<close>: the category of the first rule that matches.\<close>

fun apply_rule_loop :: "re_search \<Rightarrow> rule list \<Rightarrow> transaction \<Rightarrow> error + nat option" where
  "apply_rule_loop search [] txn = Inr None"
| "apply_rule_loop search (r # rs) txn =
     (case rule_matches search r (description txn) (amount txn) of
        Inl e \<Rightarrow> Inl e
      | Inr True \<Rightarrow> Inr (Some (rule_category_id r))
      | Inr False \<Rightarrow> apply_rule_loop search rs txn)"

text \<open>
  The outer loop: \<^verbatim>\<open>txn.category_id = rule.category_id\<close> is an attribute write.
  \<^verbatim>\<open>batch_size\<close> only sets how many rows \<^verbatim>\<open>yield_per\<close> fetches at a time and is left out.
\<close>

fun apply_loop ::
  "re_search \<Rightarrow> rule list \<Rightarrow> transaction list \<Rightarrow> session \<Rightarrow> nat \<Rightarrow> error + session \<times> nat" where
  "apply_loop search rs [] s updated = Inr (s, updated)"
| "apply_loop search rs (txn # txns) s updated =
     (case apply_rule_loop search rs txn of
        Inl e \<Rightarrow> Inl e
      | Inr None \<Rightarrow> apply_loop search rs txns s updated
      | Inr (Some c) \<Rightarrow>
          apply_loop search rs txns (s\<lparr>dirty := dirty s @ [(txn_id txn, c)]\<rparr>) (updated + 1))"

definition apply_rules :: "re_search \<Rightarrow> session \<Rightarrow> error + session \<times> nat" where
  "apply_rules search session =
     (case autoflushed session of
        Inl e \<Rightarrow> Inl e
      | Inr s1 \<Rightarrow>
          (let rs = active_rules (db s1)
           in case autoflushed s1 of
                Inl e \<Rightarrow> Inl e
              | Inr s2 \<Rightarrow>
                  apply_loop search rs
                    (sort_key (\<lambda>t. date_key (txn_date t))
                       (filter (\<lambda>t. category_id t = None) (transactions (db s2))))
                    s2 0))"

definition category_of :: "ledger \<Rightarrow> nat \<Rightarrow> nat option" where
  "category_of l i =
     (case find (\<lambda>t. txn_id t = i) (transactions l) of
        None \<Rightarrow> None
      | Some t \<Rightarrow> category_id t)"

section \<open>Import adapter (finance_app/services/importer.py)\<close>

text \<open>
  \<^verbatim>\<open>datetime.strptime\<close> for the two formats of \<^verbatim>\<open>SUPPORTED_DATE_FORMATS\<close>, on ASCII text.
  The year directive takes four digits; the month directive one digit from 1 to 9 or two
  digits from 01 to 12; the day directive one digit from 1 to 9, two digits from 01 to 31,
  or a blank and one digit from 1 to 9. The whole text has to be consumed, and the day
  has to exist in the month.
\<close>

definition digit_of :: "char \<Rightarrow> nat option" where
  "digit_of c = map_of (zip ''0123456789'' [0, 1, 2, 3, 4, 5, 6, 7, 8, 9]) c"

fun number_of :: "nat \<Rightarrow> string \<Rightarrow> nat option" where
  "number_of acc [] = Some acc"
| "number_of acc (c # cs) =
     (case digit_of c of None \<Rightarrow> None | Some d \<Rightarrow> number_of (10 * acc + d) cs)"

definition digits :: "string \<Rightarrow> nat option" where
  "digits v = (if v = [] then None else number_of 0 v)"

definition ranged :: "string \<Rightarrow> nat \<Rightarrow> nat \<Rightarrow> nat option" where
  "ranged v lo hi =
     (case digits v of
        None \<Rightarrow> None
      | Some n \<Rightarrow> if lo \<le> n \<and> n \<le> hi then Some n else None)"

definition year_field :: "string \<Rightarrow> nat option" where
  "year_field v = (if length v = 4 then digits v else None)"

definition month_field :: "string \<Rightarrow> nat option" where
  "month_field v = (if length v \<le> 2 then ranged v 1 12 else None)"

definition day_field :: "string \<Rightarrow> nat option" where
  "day_field v =
     (case v of
        [a, b] \<Rightarrow> if a = CHR '' '' then ranged [b] 1 9 else ranged v 1 31
      | _ \<Rightarrow> if length v \<le> 2 then ranged v 1 31 else None)"

definition leap_year :: "nat \<Rightarrow> bool" where
  "leap_year y = (y mod 4 = 0 \<and> (y mod 100 \<noteq> 0 \<or> y mod 400 = 0))"

definition days_in_month :: "nat \<Rightarrow> nat \<Rightarrow> nat" where
  "days_in_month y m =
     (if m = 2 then (if leap_year y then 29 else 28)
      else if m \<in> {4, 6, 9, 11} then 30 else 31)"

definition make_date :: "nat option \<Rightarrow> nat option \<Rightarrow> nat option \<Rightarrow> date option" where
  "make_date yo mo dd =
     (case (yo, mo, dd) of
        (Some y, Some m, Some d) \<Rightarrow>
          if 1 \<le> y \<and> d \<le> days_in_month y m then Some (y, m, d) else None
      | _ \<Rightarrow> None)"

fun split_on :: "char \<Rightarrow> string \<Rightarrow> string list" where
  "split_on c [] = [[]]"
| "split_on c (x # xs) =
     (if x = c then [] # split_on c xs
      else case split_on c xs of [] \<Rightarrow> [[x]] | y # ys \<Rightarrow> (x # y) # ys)"

definition strptime :: "string \<Rightarrow> string \<Rightarrow> date option" where
  "strptime v fmt =
     (if fmt = ''%Y-%m-%d'' then
        (case split_on CHR ''-'' v of
           [y, m, d] \<Rightarrow> make_date (year_field y) (month_field m) (day_field d)
         | _ \<Rightarrow> None)
      else if fmt = ''%m/%d/%Y'' then
        (case split_on CHR ''/'' v of
           [m, d, y] \<Rightarrow> make_date (year_field y) (month_field m) (day_field d)
         | _ \<Rightarrow> None)
      else None)"

text \<open>\<^verbatim>\<open>str.strip()\<close> on ASCII text.\<close>

definition is_space :: "char \<Rightarrow> bool" where
  "is_space c =
     (c \<in> set [CHR '' '', CHR 0x09, CHR 0x0A, CHR 0x0B, CHR 0x0C, CHR 0x0D,
                CHR 0x1C, CHR 0x1D, CHR 0x1E, CHR 0x1F])"

definition strip :: "string \<Rightarrow> string" where
  "strip v = rev (dropWhile is_space (rev (dropWhile is_space v)))"

definition SUPPORTED_DATE_FORMATS :: "string list" where
  "SUPPORTED_DATE_FORMATS = [''%Y-%m-%d'', ''%m/%d/%Y'']"

text \<open>\<^verbatim>\<open>parse_date\<close>: the first format that parses wins; \<^verbatim>\<open>ValueError\<close> when none does.\<close>

fun parse_date_loop :: "string list \<Rightarrow> string \<Rightarrow> error + date" where
  "parse_date_loop [] v = Inl ValueError"
| "parse_date_loop (fmt # fmts) v =
     (case strptime (strip v) fmt of
        Some d \<Rightarrow> Inr d
      | None \<Rightarrow> parse_date_loop fmts v)"

definition parse_date :: "string \<Rightarrow> error + date" where
  "parse_date v = parse_date_loop SUPPORTED_DATE_FORMATS v"










section \<open>Library functions on the inputs of the examples\<close>

text \<open>
  The examples below need values of \<^verbatim>\<open>re.search\<close> and \<^verbatim>\<open>float\<close>. \<open>literal_search\<close> is
  \<^verbatim>\<open>re.search\<close> with \<^verbatim>\<open>re.IGNORECASE\<close> on the patterns made of letters, digits, blanks,
  \<^verbatim>\<open>#\<close> and the alternation bar: a search for one of the alternatives as a substring,
  letter case ignored. The only other pattern of the examples is the single opening
  parenthesis, which Python refuses to compile. \<open>literal_search\<close> answers every pattern
  outside the fragment with the error; it stands for \<^verbatim>\<open>re.search\<close> on the examples only,
  and the general theorems are about every \<open>re_search\<close>.
\<close>

definition lower_char :: "char \<Rightarrow> char" where
  "lower_char c =
     (case map_of (zip ''ABCDEFGHIJKLMNOPQRSTUVWXYZ'' ''abcdefghijklmnopqrstuvwxyz'') c of
        None \<Rightarrow> c
      | Some d \<Rightarrow> d)"

fun starts_with :: "string \<Rightarrow> string \<Rightarrow> bool" where
  "starts_with [] d = True"
| "starts_with (p # ps) [] = False"
| "starts_with (p # ps) (d # ds) = (p = d \<and> starts_with ps ds)"

fun contains :: "string \<Rightarrow> string \<Rightarrow> bool" where
  "contains p [] = (p = [])"
| "contains p (d # ds) = (starts_with p (d # ds) \<or> contains p ds)"

definition plain_char :: "char \<Rightarrow> bool" where
  "plain_char c =
     (c \<in> set ''abcdefghijklmnopqrstuvwxyzABCDEFGHIJKLMNOPQRSTUVWXYZ0123456789 #'')"

definition literal_search :: re_search where
  "literal_search p d =
     (if \<forall>c \<in> set p. plain_char c \<or> c = CHR ''|''
      then Inr (\<exists>alt \<in> set (split_on CHR ''|'' p).
                  contains (map lower_char alt) (map lower_char d))
      else Inl ReError)"







section \<open>Effect of the services on the committed ledger\<close>

text \<open>
  The definitions of this section describe what a service leaves in the ledger once its
  unit of work is committed. They are used in the proofs; the theorems on the services
  are stated on the services.
\<close>

definition pending_ids :: "session \<Rightarrow> nat set" where
  "pending_ids s = transaction_id ` set (new_postings s)"

text \<open>The flush and the commit of a session that holds no pending transaction.\<close>

definition flushed :: "session \<Rightarrow> session" where
  "flushed s =
     s\<lparr>db := (db s)\<lparr>transactions := fold set_category (dirty s) (transactions (db s)),
                     postings := postings (db s) @ new_postings s\<rparr>,
       new_transactions := [], new_postings := [], dirty := []\<rparr>"

definition committed :: "session \<Rightarrow> ledger" where
  "committed s = db (flushed s)"

definition ledger_counterpart ::
  "ledger \<Rightarrow> transaction \<Rightarrow> string \<Rightarrow> string \<Rightarrow> string \<Rightarrow> error + ledger \<times> account" where
  "ledger_counterpart l txn prefix general ty =
     (case truthy_id (category_id txn) of
        Some c \<Rightarrow>
          (case find (\<lambda>k. cat_id k = c) (categories l) of
             None \<Rightarrow> Inl AttributeError
           | Some cat \<Rightarrow>
               (case find (\<lambda>a. acc_name a = prefix @ cat_name cat) (accounts l) of
                  Some a \<Rightarrow> Inr (l, a)
                | None \<Rightarrow>
                    (let a = \<lparr>acc_id = next_id (map acc_id (accounts l)),
                              acc_name = prefix @ cat_name cat, acc_type = ty\<rparr>
                     in Inr (l\<lparr>accounts := accounts l @ [a]\<rparr>, a))))
      | None \<Rightarrow>
          (case find (\<lambda>a. acc_name a = general) (accounts l) of
             Some a \<Rightarrow> Inr (l, a)
           | None \<Rightarrow> Inl AttributeError))"

definition two_postings :: "transaction \<Rightarrow> account \<Rightarrow> posting list" where
  "two_postings txn a =
     (if amount txn < 0
      then [\<lparr>transaction_id = txn_id txn, account_id = source_account_id txn,
              debit = 0, credit = \<bar>amount txn\<bar>\<rparr>,
            \<lparr>transaction_id = txn_id txn, account_id = acc_id a,
              debit = \<bar>amount txn\<bar>, credit = 0\<rparr>]
      else [\<lparr>transaction_id = txn_id txn, account_id = source_account_id txn,
              debit = \<bar>amount txn\<bar>, credit = 0\<rparr>,
            \<lparr>transaction_id = txn_id txn, account_id = acc_id a,
              debit = 0, credit = \<bar>amount txn\<bar>\<rparr>])"

definition ledger_generate :: "ledger \<Rightarrow> transaction \<Rightarrow> error + ledger" where
  "ledger_generate l txn =
     (let l1 = l\<lparr>postings := filter (\<lambda>p. transaction_id p \<noteq> txn_id txn) (postings l)\<rparr>
      in case (if amount txn < 0
               then ledger_counterpart l1 txn ''Expense:'' ''Expenses'' ''expense''
               else ledger_counterpart l1 txn ''Income:'' ''Income'' ''income'') of
           Inl e \<Rightarrow> Inl e
         | Inr (l2, a) \<Rightarrow> Inr (l2\<lparr>postings := postings l2 @ two_postings txn a\<rparr>))"

text \<open>The batch on the ledger, and the transactions that have no posting.\<close>

fun ledger_generate_all :: "transaction list \<Rightarrow> ledger \<Rightarrow> error + ledger" where
  "ledger_generate_all [] l = Inr l"
| "ledger_generate_all (txn # txns) l =
     (case ledger_generate l txn of
        Inl e \<Rightarrow> Inl e
      | Inr l' \<Rightarrow> ledger_generate_all txns l')"

definition unposted :: "ledger \<Rightarrow> transaction list" where
  "unposted l = filter (\<lambda>t. postings_of l (txn_id t) = []) (transactions l)"

section \<open>The rules engine as the specification words it\<close>

text \<open>
  The four conditions of the match predicate, and the rule that wins: the first one, in
  ascending priority order, that satisfies them.
\<close>

definition spec_rule_matches :: "re_search \<Rightarrow> rule \<Rightarrow> transaction \<Rightarrow> bool" where
  "spec_rule_matches search r t =
     (active r
      \<and> search (pattern r) (description t) = Inr True
      \<and> (case amount_min r of None \<Rightarrow> True | Some lo \<Rightarrow> amount t \<ge> lo)
      \<and> (case amount_max r of None \<Rightarrow> True | Some hi \<Rightarrow> amount t \<le> hi))"

definition first_matching_rule :: "re_search \<Rightarrow> rule list \<Rightarrow> transaction \<Rightarrow> rule option" where
  "first_matching_rule search rs t =
     find (\<lambda>r. spec_rule_matches search r t) (sort_key priority rs)"

definition categorize :: "re_search \<Rightarrow> rule list \<Rightarrow> transaction \<Rightarrow> transaction" where
  "categorize search rs t =
     (if category_id t = None
      then (case first_matching_rule search rs t of
              None \<Rightarrow> t
            | Some r \<Rightarrow> t\<lparr>category_id := Some (rule_category_id r)\<rparr>)
      else t)"

text \<open>Auxiliary definitions for the proofs about the rules engine.\<close>

definition assignment :: "re_search \<Rightarrow> rule list \<Rightarrow> transaction \<Rightarrow> (nat \<times> nat) option" where
  "assignment search rs t =
     map_option (\<lambda>r. (txn_id t, rule_category_id r)) (find (\<lambda>r. spec_rule_matches search r t) rs)"

definition uncategorized :: "ledger \<Rightarrow> transaction list" where
  "uncategorized l =
     sort_key (\<lambda>t. date_key (txn_date t)) (filter (\<lambda>t. category_id t = None) (transactions l))"

definition prediction :: "re_search \<Rightarrow> rule list \<Rightarrow> transaction \<Rightarrow> rule_match option" where
  "prediction search rs t =
     map_option (\<lambda>r. \<lparr>rm_transaction_id = txn_id t, rm_rule_id = rule_id r,
                        rm_category_id = rule_category_id r\<rparr>)
       (find (\<lambda>r. spec_rule_matches search r t) rs)"

section \<open>The import adapter as the specification words it\<close>





section \<open>Example data\<close>

text \<open>The accounts and categories of \<^verbatim>\<open>seed_minimal\<close>, three imported transactions, three rules.\<close>

definition walmart_txn :: transaction where
  "walmart_txn =
     \<lparr>txn_id = 1, txn_date = (2024, 3, 5), description = ''WALMART #123'', amount = - 4250,
      source_account_id = 1, normalized_memo = None, category_id = None\<rparr>"

definition payroll_txn :: transaction where
  "payroll_txn =
     \<lparr>txn_id = 2, txn_date = (2024, 3, 1), description = ''PAYROLL ACME'', amount = 250000,
      source_account_id = 1, normalized_memo = None, category_id = None\<rparr>"

definition zero_txn :: transaction where
  "zero_txn =
     \<lparr>txn_id = 3, txn_date = (2024, 3, 7), description = ''ADJUSTMENT'', amount = 0,
      source_account_id = 1, normalized_memo = None, category_id = None\<rparr>"

definition example_ledger :: ledger where
  "example_ledger =
     \<lparr>accounts =
        [\<lparr>acc_id = 1, acc_name = ''Checking'', acc_type = ''asset''\<rparr>,
         \<lparr>acc_id = 2, acc_name = ''Savings'', acc_type = ''asset''\<rparr>,
         \<lparr>acc_id = 3, acc_name = ''Income'', acc_type = ''income''\<rparr>,
         \<lparr>acc_id = 4, acc_name = ''Expenses'', acc_type = ''expense''\<rparr>,
         \<lparr>acc_id = 5, acc_name = ''Transfers'', acc_type = ''equity''\<rparr>],
      categories =
        [\<lparr>cat_id = 1, cat_name = ''Groceries'', cat_parent_id = None\<rparr>,
         \<lparr>cat_id = 2, cat_name = ''Salary'', cat_parent_id = None\<rparr>,
         \<lparr>cat_id = 3, cat_name = ''Misc'', cat_parent_id = None\<rparr>],
      transactions = [walmart_txn, payroll_txn, zero_txn],
      postings = [],
      rules =
        [\<lparr>rule_id = 1, pattern = ''wal|mart'', rule_category_id = 3, amount_min = None,
          amount_max = None, priority = 20, active = True\<rparr>,
         \<lparr>rule_id = 2, pattern = ''walmart'', rule_category_id = 1, amount_min = None,
          amount_max = Some 0, priority = 10, active = True\<rparr>,
         \<lparr>rule_id = 3, pattern = ''payroll'', rule_category_id = 2, amount_min = Some 100000,
          amount_max = None, priority = 30, active = True\<rparr>]\<rparr>"

definition groceries_txn :: transaction where
  "groceries_txn = walmart_txn\<lparr>category_id := Some 1\<rparr>"

definition posted_ledger :: ledger where
  "posted_ledger =
     example_ledger
       \<lparr>accounts := accounts example_ledger @
          [\<lparr>acc_id = 6, acc_name = ''Expense:Groceries'', acc_type = ''expense''\<rparr>],
        postings :=
          [\<lparr>transaction_id = 1, account_id = 1, debit = 0, credit = 4250\<rparr>,
           \<lparr>transaction_id = 1, account_id = 6, debit = 4250, credit = 0\<rparr>]\<rparr>"

definition categorized_ledger :: ledger where
  "categorized_ledger =
     example_ledger
       \<lparr>transactions := [walmart_txn\<lparr>category_id := Some 1\<rparr>,
                         payroll_txn\<lparr>category_id := Some 2\<rparr>, zero_txn]\<rparr>"

definition malformed_rule :: rule where
  "malformed_rule =
     \<lparr>rule_id = 4, pattern = ''('', rule_category_id = 3, amount_min = None,
      amount_max = None, priority = 5, active = True\<rparr>"

definition malformed_ledger :: ledger where
  "malformed_ledger = example_ledger\<lparr>rules := rules example_ledger @ [malformed_rule]\<rparr>"








definition batch_ledger :: ledger where
  "batch_ledger =
     posted_ledger
       \<lparr>postings := postings posted_ledger @
          [\<lparr>transaction_id = 2, account_id = 1, debit = 250000, credit = 0\<rparr>,
           \<lparr>transaction_id = 2, account_id = 3, debit = 0, credit = 250000\<rparr>]\<rparr>"

section \<open>Sessions: flushing and committing\<close>

text \<open>A session without pending transactions flushes and commits without an error.\<close>

lemma flush_clean: "new_transactions s = [] \<Longrightarrow> flush s = Inr (flushed s)"
  by (simp add: flush_def flushed_def)

lemma commit_clean: "new_transactions s = [] \<Longrightarrow> commit s = Inr (committed s)"
  by (simp add: commit_def flush_clean committed_def)

lemma autoflushed_clean:
  "new_transactions s = [] \<Longrightarrow> autoflushed s = Inr (if autoflush s then flushed s else s)"
  by (simp add: autoflushed_def flush_clean)

lemma new_transactions_flushed [simp]: "new_transactions (flushed s) = []"
  by (simp add: flushed_def)

lemma new_transactions_open [simp]: "new_transactions (open_session af l) = []"
  by (simp add: open_session_def)

lemma flushed_open [simp]: "flushed (open_session af l) = open_session af l"
  by (simp add: flushed_def open_session_def)

lemma db_open [simp]: "db (open_session af l) = l"
  by (simp add: open_session_def)

lemma committed_open [simp]: "committed (open_session af l) = l"
  by (simp add: committed_def)

lemma pending_ids_open [simp]: "pending_ids (open_session af l) = {}"
  by (simp add: pending_ids_def open_session_def)

lemma committed_flushed [simp]: "committed (flushed s) = committed s"
  by (simp add: committed_def flushed_def)

lemma pending_ids_flushed [simp]: "pending_ids (flushed s) = {}"
  by (simp add: pending_ids_def flushed_def)

lemma accounts_committed [simp]: "accounts (committed s) = accounts (db s)"
  by (simp add: committed_def flushed_def)

lemma categories_committed [simp]: "categories (committed s) = categories (db s)"
  by (simp add: committed_def flushed_def)

lemma rules_committed [simp]: "rules (committed s) = rules (db s)"
  by (simp add: committed_def flushed_def)

lemma accounts_flushed [simp]: "accounts (db (flushed s)) = accounts (db s)"
  by (simp add: flushed_def)

lemma categories_flushed [simp]: "categories (db (flushed s)) = categories (db s)"
  by (simp add: flushed_def)

lemma find_append:
  "find P (xs @ ys) = (case find P xs of None \<Rightarrow> find P ys | Some x \<Rightarrow> Some x)"
  by (induction xs) auto

section \<open>The posting generator on the committed ledger\<close>

lemma delete_postings_effect:
  assumes "new_transactions s = []"
  shows "\<exists>s'. delete_postings s i = Inr s' \<and> new_transactions s' = []
           \<and> pending_ids s' \<subseteq> pending_ids s
           \<and> categories (db s') = categories (db s)
           \<and> (i \<notin> pending_ids s \<longrightarrow>
                committed s' = (committed s)\<lparr>postings :=
                  filter (\<lambda>p. transaction_id p \<noteq> i) (postings (committed s))\<rparr>)"
proof -
  have keep: "filter (\<lambda>p. transaction_id p \<noteq> i) (new_postings s) = new_postings s"
    if "i \<notin> pending_ids s"
    using that by (auto simp: pending_ids_def filter_id_conv)
  show ?thesis
    using assms keep
    by (cases "autoflush s")
       (auto simp: delete_postings_def autoflushed_clean committed_def flushed_def
          pending_ids_def)
qed

lemma account_first_effect:
  assumes "new_transactions s = []"
  shows "\<exists>s'. account_first s n = Inr (s', find (\<lambda>a. acc_name a = n) (accounts (committed s)))
           \<and> new_transactions s' = [] \<and> committed s' = committed s
           \<and> pending_ids s' \<subseteq> pending_ids s"
  using assms by (simp add: account_first_def autoflushed_clean)

lemma add_account_flush_effect:
  assumes "new_transactions s = []"
  shows "\<exists>s'. add_account_flush s n ty =
                Inr (s', \<lparr>acc_id = next_id (map acc_id (accounts (committed s))), acc_name = n,
                          acc_type = ty\<rparr>)
           \<and> new_transactions s' = []
           \<and> committed s' = (committed s)\<lparr>accounts := accounts (committed s) @
                [\<lparr>acc_id = next_id (map acc_id (accounts (committed s))), acc_name = n,
                  acc_type = ty\<rparr>]\<rparr>
           \<and> pending_ids s' = {}"
  using assms
  by (simp add: add_account_flush_def flush_clean Let_def)
     (simp add: committed_def flushed_def pending_ids_def)

lemma committed_add_posting:
  "committed (add_posting s p) = (committed s)\<lparr>postings := postings (committed s) @ [p]\<rparr>"
  by (simp add: add_posting_def committed_def flushed_def)

lemma pending_ids_add_posting:
  "pending_ids (add_posting s p) = insert (transaction_id p) (pending_ids s)"
  by (simp add: add_posting_def pending_ids_def)

lemma new_transactions_add_posting [simp]:
  "new_transactions (add_posting s p) = new_transactions s"
  by (simp add: add_posting_def)

lemma counterpart_account_refines:
  assumes "new_transactions s = []"
  shows "(case counterpart_account s txn pre gen ty of
      Inl e \<Rightarrow> ledger_counterpart (committed s) txn pre gen ty = Inl e
    | Inr (s', a) \<Rightarrow> ledger_counterpart (committed s) txn pre gen ty = Inr (committed s', a)
                    \<and> pending_ids s' \<subseteq> pending_ids s \<and> new_transactions s' = [])"
proof (cases "truthy_id (category_id txn)")
  case None
  from account_first_effect [OF assms, of gen] obtain s1 where
    q: "account_first s gen = Inr (s1, find (\<lambda>a. acc_name a = gen) (accounts (committed s)))"
    and eff: "new_transactions s1 = []" "committed s1 = committed s"
      "pending_ids s1 \<subseteq> pending_ids s"
    by blast
  from None q eff show ?thesis
    by (cases "find (\<lambda>a. acc_name a = gen) (accounts (committed s))")
       (simp_all add: counterpart_account_def ledger_counterpart_def)
next
  case (Some c)
  show ?thesis
  proof (cases "get_category s c")
    case None
    with Some show ?thesis
      by (simp add: counterpart_account_def ledger_counterpart_def get_category_def)
  next
    case cat: (Some k)
    let ?n = "pre @ cat_name k"
    from account_first_effect [OF assms, of ?n] obtain s1 where
      q: "account_first s ?n = Inr (s1, find (\<lambda>a. acc_name a = ?n) (accounts (committed s)))"
      and eff: "new_transactions s1 = []" "committed s1 = committed s"
        "pending_ids s1 \<subseteq> pending_ids s"
      by blast
    show ?thesis
    proof (cases "find (\<lambda>a. acc_name a = ?n) (accounts (committed s))")
      case found: (Some a)
      with eff Some cat q show ?thesis
        by (simp add: counterpart_account_def ledger_counterpart_def get_category_def)
    next
      case None
      let ?a = "\<lparr>acc_id = next_id (map acc_id (accounts (committed s1))), acc_name = ?n,
                 acc_type = ty\<rparr>"
      from add_account_flush_effect [OF eff(1), of ?n ty] obtain s2 where
        n: "add_account_flush s1 ?n ty = Inr (s2, ?a)"
        and eff2: "new_transactions s2 = []"
          "committed s2 = (committed s1)\<lparr>accounts := accounts (committed s1) @ [?a]\<rparr>"
          "pending_ids s2 = {}"
        by blast
      from n eff2 eff None Some cat q show ?thesis
        by (simp add: counterpart_account_def ledger_counterpart_def get_category_def Let_def)
    qed
  qed
qed

lemma generate_refines:
  assumes "new_transactions s = []" and "txn_id txn \<notin> pending_ids s"
  shows "(case generate_postings_for_transaction s txn of
            Inl e \<Rightarrow> ledger_generate (committed s) txn = Inl e
          | Inr (s', n) \<Rightarrow> ledger_generate (committed s) txn = Inr (committed s') \<and> n = 2
                          \<and> pending_ids s' \<subseteq> insert (txn_id txn) (pending_ids s)
                          \<and> new_transactions s' = [])"
proof -
  from delete_postings_effect [OF assms(1), of "txn_id txn"] assms(2) obtain s1 where
    d: "delete_postings s (txn_id txn) = Inr s1" and n1: "new_transactions s1 = []"
    and p1: "pending_ids s1 \<subseteq> pending_ids s"
    and c1: "committed s1 = (committed s)\<lparr>postings :=
      filter (\<lambda>p. transaction_id p \<noteq> txn_id txn) (postings (committed s))\<rparr>"
    by blast
  show ?thesis
  proof (cases "amount txn < 0")
    case True
    from counterpart_account_refines [OF n1, of txn "''Expense:''" "''Expenses''" "''expense''"]
      True c1 p1 d
    show ?thesis
      by (auto simp: generate_postings_for_transaction_def ledger_generate_def Let_def
          two_postings_def committed_add_posting pending_ids_add_posting
          split: sum.splits prod.splits)
  next
    case False
    from counterpart_account_refines [OF n1, of txn "''Income:''" "''Income''" "''income''"]
      False c1 p1 d
    show ?thesis
      by (auto simp: generate_postings_for_transaction_def ledger_generate_def Let_def
          two_postings_def committed_add_posting pending_ids_add_posting
          split: sum.splits prod.splits)
  qed
qed

lemma unit_generate:
  "session_scope af (\<lambda>s. generate_postings_for_transaction s txn) l =
     (case ledger_generate l txn of Inl e \<Rightarrow> (l, Inl e) | Inr l' \<Rightarrow> (l', Inr 2))"
  using generate_refines [of "open_session af l" txn]
  by (auto simp: session_scope_def commit_clean split: sum.splits)

lemma ledger_counterpart_frame:
  assumes "ledger_counterpart l txn pre gen ty = Inr (l2, a)"
  shows "postings l2 = postings l" and "transactions l2 = transactions l"
    and "categories l2 = categories l" and "rules l2 = rules l"
  using assms
  by (auto simp: ledger_counterpart_def Let_def split: option.splits)

lemma ledger_counterpart_postings:
  "ledger_counterpart (l\<lparr>postings := ps\<rparr>) txn pre gen ty =
     (case ledger_counterpart l txn pre gen ty of
        Inl e \<Rightarrow> Inl e | Inr (l2, a) \<Rightarrow> Inr (l2\<lparr>postings := ps\<rparr>, a))"
  by (auto simp: ledger_counterpart_def Let_def split: option.splits)

lemma ledger_counterpart_again:
  assumes "ledger_counterpart l txn pre gen ty = Inr (l2, a)"
  shows "ledger_counterpart l2 txn pre gen ty = Inr (l2, a)"
  using assms
  by (auto simp: ledger_counterpart_def Let_def find_append split: option.splits)

lemma filter_two_postings [simp]:
  "filter (\<lambda>p. transaction_id p = txn_id txn) (two_postings txn a) = two_postings txn a"
  "filter (\<lambda>p. transaction_id p \<noteq> txn_id txn) (two_postings txn a) = []"
  by (simp_all add: two_postings_def)

lemma ledger_generate_postings:
  assumes "ledger_generate l txn = Inr l'"
  shows "\<exists>a. postings l' =
           filter (\<lambda>p. transaction_id p \<noteq> txn_id txn) (postings l) @ two_postings txn a"
  using assms
  by (auto simp: ledger_generate_def Let_def ledger_counterpart_postings
      split: sum.splits if_splits dest: ledger_counterpart_frame)

lemma ledger_generate_again:
  assumes "ledger_generate l txn = Inr l'"
  shows "ledger_generate l' txn = Inr l'"
proof -
  let ?F = "filter (\<lambda>p. transaction_id p \<noteq> txn_id txn) (postings l)"
  let ?pre = "if amount txn < 0 then ''Expense:'' else ''Income:''"
  let ?gen = "if amount txn < 0 then ''Expenses'' else ''Income''"
  let ?ty = "if amount txn < 0 then ''expense'' else ''income''"
  from assms obtain l2 a where
    c: "ledger_counterpart (l\<lparr>postings := ?F\<rparr>) txn ?pre ?gen ?ty = Inr (l2, a)"
    and l': "l' = l2\<lparr>postings := postings l2 @ two_postings txn a\<rparr>"
    by (auto simp: ledger_generate_def Let_def split: sum.splits if_splits)
  from ledger_counterpart_frame(1) [OF c] have p2: "postings l2 = ?F" by simp
  have "l'\<lparr>postings := filter (\<lambda>p. transaction_id p \<noteq> txn_id txn) (postings l')\<rparr> = l2"
    by (simp add: l' p2)
  with ledger_counterpart_again [OF c] l' show ?thesis
    by (auto simp: ledger_generate_def Let_def)
qed


lemma unit_generate_postings:
  assumes "session_scope af (\<lambda>s. generate_postings_for_transaction s txn) l = (l', Inr n)"
  shows "\<exists>a. postings_of l' (txn_id txn) = two_postings txn a"
proof -
  from assms have "ledger_generate l txn = Inr l'"
    by (auto simp: unit_generate split: sum.splits)
  then obtain a where
    "postings l' = filter (\<lambda>p. transaction_id p \<noteq> txn_id txn) (postings l) @ two_postings txn a"
    using ledger_generate_postings by blast
  then have "postings_of l' (txn_id txn) = two_postings txn a"
    by (simp add: postings_of_def)
  then show ?thesis ..
qed




text \<open>
  The two postings are never negative, and exactly one of debit and credit is non-zero
  as long as the amount is not zero.
\<close>

lemma postings_signs:
  assumes "session_scope af (\<lambda>s. generate_postings_for_transaction s txn) l = (l', Inr n)"
    and "p \<in> set (postings_of l' (txn_id txn))"
  shows "0 \<le> debit p \<and> 0 \<le> credit p \<and> (amount txn \<noteq> 0 \<longrightarrow> (debit p = 0) \<noteq> (credit p = 0))"
  using unit_generate_postings [OF assms(1)] assms(2)
  by (auto simp: two_postings_def split: if_splits)

text \<open>
  C2. The claim that every generated posting has exactly one of debit and credit
  non-zero fails for a transaction whose amount is zero: the generator takes the income
  branch and writes two postings in which debit and credit are both zero.
\<close>

theorem zero_amount_postings:
  "session_scope False (\<lambda>s. generate_postings_for_transaction s zero_txn) example_ledger
   = (example_ledger
        \<lparr>postings :=
           [\<lparr>transaction_id = 3, account_id = 1, debit = 0, credit = 0\<rparr>,
            \<lparr>transaction_id = 3, account_id = 3, debit = 0, credit = 0\<rparr>]\<rparr>, Inr 2)"
  by code_simp

text \<open>
  When each call is a unit of work of its own, the second call finds the postings of the
  first in the database and replaces them by the same two postings: it leaves the ledger
  of the first call and gives the same result.
\<close>

lemma committed_second_call:
  assumes "session_scope af (\<lambda>s. generate_postings_for_transaction s txn) l = (l1, r1)"
  shows "session_scope af (\<lambda>s. generate_postings_for_transaction s txn) l1 = (l1, r1)
       \<and> (\<forall>n. r1 = Inr n \<longrightarrow> length (postings_of l1 (txn_id txn)) = 2)"
proof -
  have two: "length (two_postings txn a) = 2" for a
    by (simp add: two_postings_def)
  from assms have "session_scope af (\<lambda>s. generate_postings_for_transaction s txn) l1 = (l1, r1)"
    by (auto simp: unit_generate split: sum.splits dest: ledger_generate_again)
  moreover have "length (postings_of l1 (txn_id txn)) = 2" if "r1 = Inr n" for n
    using unit_generate_postings [of af txn l l1 n] assms that two by auto
  ultimately show ?thesis by blast
qed

text \<open>The same holds for two calls in one session that flushes before its queries.\<close>

lemma autoflush_second_call:
  "session_scope True
     (\<lambda>s. case generate_postings_for_transaction s groceries_txn of
            Inl e \<Rightarrow> Inl e
          | Inr (s1, n) \<Rightarrow> generate_postings_for_transaction s1 groceries_txn) example_ledger
   = (posted_ledger, Inr 2)"
  by code_simp

text \<open>
  C3. The generator is not idempotent in the sessions of the application, which do not
  flush before a query (\<^verbatim>\<open>autoflush=False\<close>): the \<^verbatim>\<open>DELETE\<close> of the second call acts on
  the rows of the database, where the two postings that the first call added are not
  yet, and the second call adds two more. One call on the categorized transaction
  commits two postings; two calls in succession in one unit of work commit four, the
  two postings twice, and the debits of the transaction then add up to twice its
  amount.
\<close>

theorem second_call_duplicates_postings:
  "session_scope False (\<lambda>s. generate_postings_for_transaction s groceries_txn) example_ledger
     = (posted_ledger, Inr 2)
   \<and> session_scope False
       (\<lambda>s. case generate_postings_for_transaction s groceries_txn of
              Inl e \<Rightarrow> Inl e
            | Inr (s1, n) \<Rightarrow> generate_postings_for_transaction s1 groceries_txn) example_ledger
     = (posted_ledger\<lparr>postings := postings posted_ledger @ postings posted_ledger\<rparr>, Inr 2)
   \<and> postings_of posted_ledger 1
     = [\<lparr>transaction_id = 1, account_id = 1, debit = 0, credit = 4250\<rparr>,
        \<lparr>transaction_id = 1, account_id = 6, debit = 4250, credit = 0\<rparr>]
   \<and> postings_of (posted_ledger\<lparr>postings := postings posted_ledger @ postings posted_ledger\<rparr>) 1
     = [\<lparr>transaction_id = 1, account_id = 1, debit = 0, credit = 4250\<rparr>,
        \<lparr>transaction_id = 1, account_id = 6, debit = 4250, credit = 0\<rparr>,
        \<lparr>transaction_id = 1, account_id = 1, debit = 0, credit = 4250\<rparr>,
        \<lparr>transaction_id = 1, account_id = 6, debit = 4250, credit = 0\<rparr>]"
  by code_simp

section \<open>The rules engine on the committed ledger\<close>

lemma rule_matches_Inr:
  "rule_matches search r (description t) (amount t) = Inr b \<Longrightarrow> b = spec_rule_matches search r t"
  by (auto simp: rule_matches_def spec_rule_matches_def split: if_splits sum.splits option.splits)

lemma apply_rule_loop_Inr:
  "apply_rule_loop search rs t = Inr c \<Longrightarrow>
   c = map_option rule_category_id (find (\<lambda>r. spec_rule_matches search r t) rs)"
proof (induction rs)
  case Nil
  then show ?case by simp
next
  case (Cons r rs)
  show ?case
  proof (cases "rule_matches search r (description t) (amount t)")
    case (Inl e)
    with Cons.prems show ?thesis by simp
  next
    case (Inr b)
    from rule_matches_Inr [OF Inr] Inr Cons show ?thesis
      by (cases b) auto
  qed
qed

lemma dry_run_rules_Inr:
  "dry_run_rules search rs t = Inr m \<Longrightarrow>
   m = map_option (\<lambda>r. \<lparr>rm_transaction_id = txn_id t, rm_rule_id = rule_id r,
                          rm_category_id = rule_category_id r\<rparr>)
         (find (\<lambda>r. spec_rule_matches search r t) rs)"
proof (induction rs)
  case Nil
  then show ?case by simp
next
  case (Cons r rs)
  show ?case
  proof (cases "rule_matches search r (description t) (amount t)")
    case (Inl e)
    with Cons.prems show ?thesis by simp
  next
    case (Inr b)
    from rule_matches_Inr [OF Inr] Inr Cons show ?thesis
      by (cases b) auto
  qed
qed

lemma find_filter_implied:
  "(\<And>x. P x \<Longrightarrow> Q x) \<Longrightarrow> find P (filter Q xs) = find P xs"
  by (induction xs) auto

lemma find_active_rules:
  "find (\<lambda>r. spec_rule_matches search r t) (active_rules l) = first_matching_rule search (rules l) t"
  unfolding active_rules_def first_matching_rule_def filter_sort [symmetric]
  by (rule find_filter_implied) (simp add: spec_rule_matches_def)


lemma apply_loop_evaluated:
  "apply_loop search rs txns s u = Inr x \<Longrightarrow> \<forall>t \<in> set txns. \<exists>c. apply_rule_loop search rs t = Inr c"
  by (induction txns arbitrary: s u) (auto split: sum.splits option.splits)

lemma apply_loop_eq:
  assumes "\<forall>t \<in> set txns. \<exists>c. apply_rule_loop search rs t = Inr c"
  shows "apply_loop search rs txns s u =
         Inr (s\<lparr>dirty := dirty s @ List.map_filter (assignment search rs) txns\<rparr>,
              u + length (List.map_filter (assignment search rs) txns))"
  using assms
proof (induction txns arbitrary: s u)
  case Nil
  then show ?case by simp
next
  case (Cons t txns)
  from Cons.prems obtain c where c: "apply_rule_loop search rs t = Inr c" by auto
  from Cons.prems have rest: "\<forall>t \<in> set txns. \<exists>c. apply_rule_loop search rs t = Inr c" by simp
  from apply_rule_loop_Inr [OF c] c show ?case
    by (cases "find (\<lambda>r. spec_rule_matches search r t) rs")
       (simp_all add: Cons.IH [OF rest] assignment_def)
qed

lemma apply_loop_no_match:
  assumes "\<forall>t \<in> set txns. apply_rule_loop search rs t = Inr None"
  shows "apply_loop search rs txns s u = Inr (s, u)"
  using assms by (induction txns) auto

lemma txn_id_set_category [simp]: "map txn_id (set_category u rows) = map txn_id rows"
  by (simp add: set_category_def comp_def if_distrib cong: if_cong)

lemma fold_set_category:
  assumes "distinct (map fst ds)"
  shows "fold set_category ds rows =
         map (\<lambda>t. case map_of ds (txn_id t) of None \<Rightarrow> t
                   | Some c \<Rightarrow> t\<lparr>category_id := Some c\<rparr>) rows"
  using assms
proof (induction ds arbitrary: rows)
  case Nil
  then show ?case by simp
next
  case (Cons d ds)
  obtain i c where d: "d = (i, c)" by (cases d)
  from Cons.prems d have none: "map_of ds i = None"
    by (simp add: map_of_eq_None_iff)
  from Cons.prems have "distinct (map fst ds)" by simp
  from Cons.IH [OF this] d none show ?case
    by (auto simp: set_category_def)
qed


lemma commit_dirty_open:
  "commit ((open_session af l)\<lparr>dirty := ds\<rparr>)
   = Inr (l\<lparr>transactions := fold set_category ds (transactions l)\<rparr>)"
  by (simp add: commit_def flush_def open_session_def)

lemma find_by_id:
  assumes "distinct (map txn_id xs)" and "t \<in> set xs"
  shows "find (\<lambda>x. txn_id x = txn_id t) xs = Some t"
  using assms by (induction xs) (auto simp: rev_image_eqI)

lemma fst_assignments:
  "map fst (List.map_filter (assignment search rs) xs) =
   map txn_id (filter (\<lambda>t. find (\<lambda>r. spec_rule_matches search r t) rs \<noteq> None) xs)"
  by (induction xs) (auto simp: assignment_def)

lemma distinct_assignments:
  "distinct (map txn_id xs) \<Longrightarrow> distinct (map fst (List.map_filter (assignment search rs) xs))"
  by (simp add: fst_assignments distinct_map_filter)

lemma map_of_assignments:
  assumes "distinct (map txn_id xs)"
  shows "map_of (List.map_filter (assignment search rs) xs) i =
         (case find (\<lambda>t. txn_id t = i) xs of
            None \<Rightarrow> None
          | Some t \<Rightarrow> map_option rule_category_id (find (\<lambda>r. spec_rule_matches search r t) rs))"
  using assms
proof (induction xs)
  case Nil
  then show ?case by simp
next
  case (Cons t xs)
  from Cons.prems have "txn_id t \<notin> txn_id ` set xs" by simp
  then have "\<forall>x \<in> set xs. txn_id x \<noteq> txn_id t" by (metis imageI)
  then have absent: "find (\<lambda>x. txn_id x = txn_id t) xs = None"
    by (simp add: find_None_iff)
  from Cons absent show ?case
    by (cases "find (\<lambda>r. spec_rule_matches search r t) rs") (auto simp: assignment_def)
qed

lemma set_uncategorized [simp]:
  "set (uncategorized l) = {t \<in> set (transactions l). category_id t = None}"
  by (simp add: uncategorized_def)

lemma distinct_uncategorized:
  assumes "distinct (map txn_id (transactions l))"
  shows "distinct (map txn_id (uncategorized l))"
proof -
  from assms have d: "distinct (transactions l)" and i: "inj_on txn_id (set (transactions l))"
    by (simp_all add: distinct_map)
  have "inj_on txn_id (set (uncategorized l))"
    by (rule inj_on_subset [OF i]) auto
  with d show ?thesis
    by (simp add: distinct_map) (simp add: uncategorized_def)
qed

lemma find_uncategorized:
  assumes "distinct (map txn_id (transactions l))" and "t \<in> set (transactions l)"
  shows "find (\<lambda>x. txn_id x = txn_id t) (uncategorized l) =
         (if category_id t = None then Some t else None)"
proof (cases "category_id t = None")
  case True
  with assms(2) have "t \<in> set (uncategorized l)" by simp
  from find_by_id [OF distinct_uncategorized [OF assms(1)] this] True show ?thesis by simp
next
  case False
  from assms(1) have i: "inj_on txn_id (set (transactions l))" by (simp add: distinct_map)
  have "\<not> (\<exists>x. x \<in> set (uncategorized l) \<and> txn_id x = txn_id t)"
  proof
    assume "\<exists>x. x \<in> set (uncategorized l) \<and> txn_id x = txn_id t"
    then obtain x where x: "x \<in> set (transactions l)" "category_id x = None" "txn_id x = txn_id t"
      by auto
    from inj_onD [OF i x(3) x(1) assms(2)] x(2) False show False by simp
  qed
  then have "find (\<lambda>x. txn_id x = txn_id t) (uncategorized l) = None"
    by (simp only: find_None_iff not_False_eq_True)
  with False show ?thesis by simp
qed

lemma fold_assignments:
  assumes "distinct (map txn_id (transactions l))"
  shows "fold set_category (List.map_filter (assignment search (active_rules l)) (uncategorized l))
           (transactions l)
         = map (categorize search (rules l)) (transactions l)"
proof -
  have "\<And>t. t \<in> set (transactions l) \<Longrightarrow>
      (case map_of (List.map_filter (assignment search (active_rules l)) (uncategorized l)) (txn_id t) of
         None \<Rightarrow> t | Some c \<Rightarrow> t\<lparr>category_id := Some c\<rparr>) = categorize search (rules l) t"
    by (simp add: map_of_assignments [OF distinct_uncategorized [OF assms]]
          find_uncategorized [OF assms] categorize_def find_active_rules split: option.splits)
  then show ?thesis
    by (simp add: fold_set_category [OF distinct_assignments [OF distinct_uncategorized [OF assms]]])
qed

lemma apply_rules_open:
  "apply_rules search (open_session af l) =
     apply_loop search (active_rules l) (uncategorized l) (open_session af l) 0"
  by (simp add: apply_rules_def Let_def uncategorized_def autoflushed_clean)

lemma unit_apply:
  assumes "distinct (map txn_id (transactions l))"
    and "session_scope af (apply_rules search) l = (l', Inr n)"
  shows "l' = l\<lparr>transactions := map (categorize search (rules l)) (transactions l)\<rparr>"
    and "\<forall>t \<in> set (transactions l). category_id t = None \<longrightarrow>
           apply_rule_loop search (active_rules l) t =
             Inr (map_option rule_category_id (first_matching_rule search (rules l) t))"
proof -
  from assms(2) obtain s' where
    run: "apply_loop search (active_rules l) (uncategorized l) (open_session af l) 0 = Inr (s', n)"
    and l': "commit s' = Inr l'"
    by (auto simp: session_scope_def apply_rules_open split: sum.splits)
  from apply_loop_evaluated [OF run]
  have ev: "\<forall>t \<in> set (uncategorized l). \<exists>c. apply_rule_loop search (active_rules l) t = Inr c" .
  from apply_loop_eq [OF ev, of "open_session af l" 0] run
  have "s' = (open_session af l)\<lparr>dirty :=
      List.map_filter (assignment search (active_rules l)) (uncategorized l)\<rparr>"
    by (simp add: open_session_def)
  with l' show "l' = l\<lparr>transactions := map (categorize search (rules l)) (transactions l)\<rparr>"
    by (simp add: commit_dirty_open fold_assignments [OF assms(1)])
  show "\<forall>t \<in> set (transactions l). category_id t = None \<longrightarrow>
           apply_rule_loop search (active_rules l) t =
             Inr (map_option rule_category_id (first_matching_rule search (rules l) t))"
  proof (intro ballI impI)
    fix t assume "t \<in> set (transactions l)" "category_id t = None"
    with ev obtain c where c: "apply_rule_loop search (active_rules l) t = Inr c" by auto
    from apply_rule_loop_Inr [OF c] c
    show "apply_rule_loop search (active_rules l) t =
             Inr (map_option rule_category_id (first_matching_rule search (rules l) t))"
      by (simp add: find_active_rules)
  qed
qed

lemma unit_apply_nothing:
  assumes "\<forall>t \<in> set (transactions l). category_id t = None \<longrightarrow>
             apply_rule_loop search (active_rules l) t = Inr None"
  shows "session_scope af (apply_rules search) l = (l, Inr 0)"
proof -
  from assms have "\<forall>t \<in> set (uncategorized l). apply_rule_loop search (active_rules l) t = Inr None"
    by simp
  from apply_loop_no_match [OF this] show ?thesis
    by (simp add: session_scope_def apply_rules_open commit_clean)
qed


lemma find_map_id:
  "(\<And>x. g (f x) = g x) \<Longrightarrow> find (\<lambda>x. g x = i) (map f xs) = map_option f (find (\<lambda>x. g x = i) xs)"
  by (induction xs) auto

lemma txn_id_categorize [simp]: "txn_id (categorize search rs t) = txn_id t"
  by (simp add: categorize_def split: option.splits)

lemma category_of_applied:
  assumes "distinct (map txn_id (transactions l))"
    and "session_scope af (apply_rules search) l = (l', Inr n)"
    and "t \<in> set (transactions l)"
  shows "category_of l' (txn_id t) = category_id (categorize search (rules l) t)"
  using unit_apply(1) [OF assms(1,2)] find_by_id [OF assms(1,3)]
  by (simp add: category_of_def find_map_id)

lemma first_matching_rule_props:
  assumes "first_matching_rule search rs t = Some w"
  shows "w \<in> set rs" and "spec_rule_matches search w t"
    and "\<And>r. r \<in> set rs \<Longrightarrow> spec_rule_matches search r t \<Longrightarrow> priority w \<le> priority r"
proof -
  let ?P = "\<lambda>r. spec_rule_matches search r t"
  let ?xs = "sort_key priority rs"
  from assms obtain i where i: "i < length ?xs" "?P (?xs ! i)" "w = ?xs ! i"
    "\<forall>j < i. \<not> ?P (?xs ! j)"
    by (auto simp: first_matching_rule_def find_Some_iff)
  from i(1,3) have "w \<in> set ?xs" by (metis nth_mem)
  then show "w \<in> set rs" by simp
  from i(2,3) show "?P w" by simp
  fix r assume r: "r \<in> set rs" "?P r"
  then have "r \<in> set ?xs" by simp
  then obtain k where k: "k < length ?xs" "?xs ! k = r" by (metis in_set_conv_nth)
  with r(2) i(4) have "i \<le> k" by (metis not_le_imp_less)
  have srt: "sorted (map priority ?xs)" by (rule sorted_sort_key)
  from sorted_nth_mono [OF srt \<open>i \<le> k\<close>] k(1) have "map priority ?xs ! i \<le> map priority ?xs ! k"
    by simp
  with i(1,3) k show "priority w \<le> priority r" by simp
qed

lemma first_matching_rule_exists:
  assumes "r \<in> set rs" and "spec_rule_matches search r t"
  shows "\<exists>w. first_matching_rule search rs t = Some w"
proof (cases "first_matching_rule search rs t")
  case None
  with assms show ?thesis by (auto simp: first_matching_rule_def find_None_iff)
next
  case (Some w)
  then show ?thesis by simp
qed

text \<open>The inner loop stops at the first rule that matches: the rules behind it are not evaluated.\<close>

lemma apply_rule_loop_stops:
  "rule_matches search r (description t) (amount t) = Inr True \<Longrightarrow>
   apply_rule_loop search (r # rs) t = Inr (Some (rule_category_id r))"
  by simp

text \<open>
  C5. When rule application succeeds, an uncategorized transaction gets the category of
  the first rule, in ascending priority order, that is active, whose pattern is found in
  the description, and whose amount bounds, where set, include the amount; it stays
  uncategorized when there is none. For every rule that matches the transaction, the
  rule that gave the category matches it too and has no greater priority value.
\<close>

theorem apply_rules_first_match:
  assumes "distinct (map txn_id (transactions l))"
    and "session_scope af (apply_rules search) l = (l', Inr n)"
    and "t \<in> set (transactions l)" and "category_id t = None"
  shows "category_of l' (txn_id t) =
           map_option rule_category_id (first_matching_rule search (rules l) t)
       \<and> (\<forall>r \<in> set (rules l). spec_rule_matches search r t \<longrightarrow>
            (\<exists>w \<in> set (rules l). spec_rule_matches search w t \<and> priority w \<le> priority r
               \<and> category_of l' (txn_id t) = Some (rule_category_id w)))"
proof -
  from category_of_applied [OF assms(1,2,3)] assms(4)
  have c: "category_of l' (txn_id t) =
           map_option rule_category_id (first_matching_rule search (rules l) t)"
    by (simp add: categorize_def split: option.splits)
  have "\<exists>w \<in> set (rules l). spec_rule_matches search w t \<and> priority w \<le> priority r
               \<and> category_of l' (txn_id t) = Some (rule_category_id w)"
    if r: "r \<in> set (rules l)" "spec_rule_matches search r t" for r
  proof -
    from first_matching_rule_exists [OF r] obtain w
      where w: "first_matching_rule search (rules l) t = Some w" ..
    from first_matching_rule_props [OF w] r c w show ?thesis by auto
  qed
  with c show ?thesis by blast
qed

lemma example_apply_run:
  "session_scope False (apply_rules literal_search) example_ledger = (categorized_ledger, Inr 2)"
  by code_simp

lemma example_distinct: "distinct (map txn_id (transactions example_ledger))"
  by code_simp

theorem apply_rules_first_match_witness:
  "distinct (map txn_id (transactions example_ledger))
   \<and> session_scope False (apply_rules literal_search) example_ledger = (categorized_ledger, Inr 2)
   \<and> walmart_txn \<in> set (transactions example_ledger)
   \<and> category_id walmart_txn = None
   \<and> spec_rule_matches literal_search (rules example_ledger ! 0) walmart_txn
   \<and> spec_rule_matches literal_search (rules example_ledger ! 1) walmart_txn
   \<and> priority (rules example_ledger ! 1) < priority (rules example_ledger ! 0)
   \<and> category_of categorized_ledger (txn_id walmart_txn)
       = Some (rule_category_id (rules example_ledger ! 1))"
proof -
  have t: "walmart_txn \<in> set (transactions example_ledger)"
    by (simp add: example_ledger_def)
  have u: "category_id walmart_txn = None"
    by (simp add: walmart_txn_def)
  have m0: "spec_rule_matches literal_search (rules example_ledger ! 0) walmart_txn"
    by code_simp
  have m1: "spec_rule_matches literal_search (rules example_ledger ! 1) walmart_txn"
    by code_simp
  have p: "priority (rules example_ledger ! 1) < priority (rules example_ledger ! 0)"
    by (simp add: example_ledger_def)
  have w: "map_option rule_category_id
             (first_matching_rule literal_search (rules example_ledger) walmart_txn)
           = Some (rule_category_id (rules example_ledger ! 1))"
    by code_simp
  from apply_rules_first_match [OF example_distinct example_apply_run t u] w
  have "category_of categorized_ledger (txn_id walmart_txn)
          = Some (rule_category_id (rules example_ledger ! 1))"
    by simp
  with example_distinct example_apply_run t u m0 m1 p show ?thesis by simp
qed


lemma apply_rules_again:
  assumes "distinct (map txn_id (transactions l))"
    and "session_scope af (apply_rules search) l = (l1, Inr n)"
  shows "session_scope af (apply_rules search) l1 = (l1, Inr 0)"
proof (rule unit_apply_nothing, intro ballI impI)
  fix t' assume t': "t' \<in> set (transactions l1)" "category_id t' = None"
  note l1 = unit_apply(1) [OF assms]
  from t'(1) l1 obtain t where t: "t \<in> set (transactions l)" "t' = categorize search (rules l) t"
    by auto
  from t(2) t'(2) have unc: "category_id t = None"
    and none: "first_matching_rule search (rules l) t = None" and same: "t' = t"
    by (auto simp: categorize_def split: if_splits option.splits)
  from unit_apply(2) [OF assms] t(1) unc none same l1
  show "apply_rule_loop search (active_rules l1) t' = Inr None"
    by (simp add: active_rules_def)
qed

text \<open>
  C9. A second run of rule application on the ledger that the first run committed
  changes nothing and, when the first run succeeded, categorizes nothing. A run changes
  no table but the transactions, no field of a transaction but its category, and no
  transaction that already has a category.
\<close>

theorem apply_rules_idempotent:
  assumes "distinct (map txn_id (transactions l))"
    and "session_scope af (apply_rules search) l = (l1, r1)"
  shows "fst (session_scope af (apply_rules search) l1) = l1
       \<and> (\<forall>n. r1 = Inr n \<longrightarrow> snd (session_scope af (apply_rules search) l1) = Inr 0)
       \<and> l1\<lparr>transactions := transactions l\<rparr> = l
       \<and> length (transactions l1) = length (transactions l)
       \<and> (\<forall>i < length (transactions l).
            (category_id (transactions l ! i) \<noteq> None \<longrightarrow> transactions l1 ! i = transactions l ! i)
          \<and> (\<exists>c. transactions l1 ! i = (transactions l ! i)\<lparr>category_id := c\<rparr>))"
proof (cases r1)
  case (Inl e)
  with assms(2) have "l1 = l" by (auto simp: session_scope_def split: sum.splits)
  have same: "\<exists>c. t = t\<lparr>category_id := c\<rparr>" for t :: transaction
    by (rule exI [of _ "category_id t"]) simp
  from assms(2) Inl \<open>l1 = l\<close> same show ?thesis
    by simp
next
  case (Inr n)
  with assms(2) have run: "session_scope af (apply_rules search) l = (l1, Inr n)" by simp
  note l1 = unit_apply(1) [OF assms(1) run]
  have shape: "\<exists>c. categorize search (rules l) t = t\<lparr>category_id := c\<rparr>" for t
  proof (cases "category_id t = None \<and> first_matching_rule search (rules l) t \<noteq> None")
    case True
    then show ?thesis by (auto simp: categorize_def)
  next
    case False
    then have "categorize search (rules l) t = t\<lparr>category_id := category_id t\<rparr>"
      by (auto simp: categorize_def)
    then show ?thesis ..
  qed
  from apply_rules_again [OF assms(1) run] Inr l1 shape show ?thesis
    by (simp add: categorize_def)
qed

theorem apply_rules_idempotent_witness:
  "distinct (map txn_id (transactions example_ledger))
   \<and> session_scope False (apply_rules literal_search) example_ledger = (categorized_ledger, Inr 2)
   \<and> session_scope False (apply_rules literal_search) categorized_ledger
       = (categorized_ledger, Inr 0)"
proof -
  from apply_rules_idempotent [OF example_distinct example_apply_run]
  have "fst (session_scope False (apply_rules literal_search) categorized_ledger)
          = categorized_ledger"
    and "snd (session_scope False (apply_rules literal_search) categorized_ledger) = Inr 0"
    by simp_all
  then have "session_scope False (apply_rules literal_search) categorized_ledger
       = (categorized_ledger, Inr 0)"
    by (simp add: prod_eq_iff)
  with example_distinct example_apply_run show ?thesis by simp
qed


lemma dry_run_loop_Inr:
  "dry_run_loop search rs txns acc = Inr res \<Longrightarrow>
   res = acc @ List.map_filter (prediction search rs) txns"
proof (induction txns arbitrary: acc)
  case Nil
  then show ?case by simp
next
  case (Cons t txns)
  show ?case
  proof (cases "dry_run_rules search rs t")
    case (Inl e)
    with Cons.prems show ?thesis by simp
  next
    case (Inr m)
    from dry_run_rules_Inr [OF Inr] have m: "m = prediction search rs t"
      by (simp add: prediction_def)
    show ?thesis
    proof (cases m)
      case None
      with Inr Cons m show ?thesis by simp
    next
      case (Some x)
      with Inr Cons.prems have "dry_run_loop search rs txns (acc @ [x]) = Inr res" by simp
      from Cons.IH [OF this] Some m show ?thesis by simp
    qed
  qed
qed

lemma prediction_ids:
  "m \<in> set (List.map_filter (prediction search rs) xs) \<Longrightarrow> rm_transaction_id m \<in> txn_id ` set xs"
proof (induction xs)
  case Nil
  then show ?case by simp
next
  case (Cons x xs)
  then show ?case
    by (cases "find (\<lambda>r. spec_rule_matches search r x) rs") (auto simp: prediction_def)
qed

lemma find_prediction:
  assumes "distinct (map txn_id xs)" and "t \<in> set xs"
  shows "find (\<lambda>m. rm_transaction_id m = txn_id t) (List.map_filter (prediction search rs) xs)
         = prediction search rs t"
  using assms
proof (induction xs)
  case Nil
  then show ?case by simp
next
  case (Cons x xs)
  show ?case
  proof (cases "x = t")
    case True
    from Cons.prems have "txn_id t \<notin> txn_id ` set xs" using True by simp
    with prediction_ids [of _ search rs xs]
    have "\<forall>m \<in> set (List.map_filter (prediction search rs) xs). rm_transaction_id m \<noteq> txn_id t"
      by metis
    then have "find (\<lambda>m. rm_transaction_id m = txn_id t) (List.map_filter (prediction search rs) xs)
        = None"
      by (simp add: find_None_iff)
    moreover have "\<And>m. prediction search rs t = Some m \<Longrightarrow> rm_transaction_id m = txn_id t"
      by (auto simp: prediction_def)
    ultimately show ?thesis using True
      by (cases "prediction search rs t") simp_all
  next
    case False
    with Cons.prems have t: "t \<in> set xs" and ne: "txn_id x \<noteq> txn_id t" by auto
    have "\<And>m. prediction search rs x = Some m \<Longrightarrow> rm_transaction_id m = txn_id x"
      by (auto simp: prediction_def)
    with Cons t ne show ?thesis
      by (cases "prediction search rs x") simp_all
  qed
qed

lemma dry_run_matches_open:
  "dry_run_matches search (open_session af l) limit =
     (case dry_run_loop search (active_rules l) (dry_run_transactions l limit) [] of
        Inl e \<Rightarrow> Inl e
      | Inr results \<Rightarrow> Inr (open_session af l, results))"
  by (simp add: dry_run_matches_def Let_def autoflushed_clean split: sum.splits)

lemma dry_run_transactions_props:
  assumes "distinct (map txn_id (transactions l))"
  shows "distinct (map txn_id (dry_run_transactions l limit))"
    and "t \<in> set (dry_run_transactions l limit) \<Longrightarrow> t \<in> set (transactions l) \<and> category_id t = None"
proof -
  let ?xs = "sort_key (\<lambda>t. - date_key (txn_date t))
               (filter (\<lambda>t. category_id t = None) (transactions l))"
  from assms have d: "distinct (transactions l)" and i: "inj_on txn_id (set (transactions l))"
    by (simp_all add: distinct_map)
  have "inj_on txn_id (set ?xs)"
    by (rule inj_on_subset [OF i]) auto
  with d have "distinct (map txn_id ?xs)"
    by (simp add: distinct_map)
  then have "distinct (take limit (map txn_id ?xs))" by (rule distinct_take)
  then show "distinct (map txn_id (dry_run_transactions l limit))"
    by (simp add: dry_run_transactions_def take_map)
  assume "t \<in> set (dry_run_transactions l limit)"
  then have "t \<in> set ?xs" unfolding dry_run_transactions_def by (rule in_set_takeD)
  then show "t \<in> set (transactions l) \<and> category_id t = None" by simp
qed

text \<open>
  C4. For one ledger, hence one rule set, and a transaction that the dry run looks at:
  when the dry run and the rule application both succeed, the category that the dry run
  reports for the transaction is the category that the application commits for it, and
  the dry run reports none exactly when the transaction stays uncategorized. The dry
  run leaves the ledger as it was.
\<close>

theorem dry_run_agrees_with_apply:
  assumes "distinct (map txn_id (transactions l))"
    and "session_scope af (\<lambda>s. dry_run_matches search s limit) l = (l1, Inr ms)"
    and "session_scope af (apply_rules search) l = (l2, Inr n)"
    and "t \<in> set (dry_run_transactions l limit)"
  shows "map_option rm_category_id (find (\<lambda>m. rm_transaction_id m = txn_id t) ms)
           = category_of l2 (txn_id t)
       \<and> l1 = l"
proof -
  from assms(2) have loop: "dry_run_loop search (active_rules l) (dry_run_transactions l limit) [] = Inr ms"
    and l1: "l1 = l"
    by (auto simp: session_scope_def dry_run_matches_open commit_clean split: sum.splits)
  from dry_run_loop_Inr [OF loop]
  have ms: "ms = List.map_filter (prediction search (active_rules l)) (dry_run_transactions l limit)"
    by simp
  note props = dry_run_transactions_props [OF assms(1)]
  from props(2) [OF assms(4)] have t: "t \<in> set (transactions l)" and unc: "category_id t = None"
    by simp_all
  have "find (\<lambda>m. rm_transaction_id m = txn_id t) ms = prediction search (active_rules l) t"
    unfolding ms by (rule find_prediction [OF props(1) assms(4)])
  then have "map_option rm_category_id (find (\<lambda>m. rm_transaction_id m = txn_id t) ms)
      = map_option rule_category_id (first_matching_rule search (rules l) t)"
    by (simp add: prediction_def find_active_rules option.map_comp comp_def)
  moreover from category_of_applied [OF assms(1,3) t] unc
  have "category_of l2 (txn_id t) =
      map_option rule_category_id (first_matching_rule search (rules l) t)"
    by (simp add: categorize_def split: option.splits)
  ultimately show ?thesis using l1 by simp
qed

lemma example_dry_run:
  "session_scope False (\<lambda>s. dry_run_matches literal_search s 2) example_ledger
   = (example_ledger, Inr [\<lparr>rm_transaction_id = 1, rm_rule_id = 2, rm_category_id = 1\<rparr>])"
  by code_simp

theorem dry_run_agrees_with_apply_witness:
  "distinct (map txn_id (transactions example_ledger))
   \<and> session_scope False (\<lambda>s. dry_run_matches literal_search s 2) example_ledger
       = (example_ledger, Inr [\<lparr>rm_transaction_id = 1, rm_rule_id = 2, rm_category_id = 1\<rparr>])
   \<and> session_scope False (apply_rules literal_search) example_ledger = (categorized_ledger, Inr 2)
   \<and> walmart_txn \<in> set (dry_run_transactions example_ledger 2)
   \<and> category_of categorized_ledger (txn_id walmart_txn) = Some 1"
proof -
  have t: "walmart_txn \<in> set (dry_run_transactions example_ledger 2)"
    by code_simp
  have f: "map_option rm_category_id
             (find (\<lambda>m. rm_transaction_id m = txn_id walmart_txn)
                [\<lparr>rm_transaction_id = 1, rm_rule_id = 2, rm_category_id = 1\<rparr>]) = Some 1"
    by (simp add: walmart_txn_def)
  from dry_run_agrees_with_apply [OF example_distinct example_dry_run example_apply_run t] f
  have "category_of categorized_ledger (txn_id walmart_txn) = Some 1" by simp
  with example_distinct example_dry_run example_apply_run t show ?thesis by simp
qed

lemma rule_matches_malformed:
  assumes "active r" and "search (pattern r) d = Inl e"
  shows "rule_matches search r d a = Inl e"
  using assms by (simp add: rule_matches_def)

text \<open>
  C10. For an active rule whose pattern the regular expression library refuses,
  \<^verbatim>\<open>_rule_matches\<close> raises the library's error instead of answering False. When that rule
  is the first of the active rules in priority order and the ledger has an
  uncategorized transaction, the dry run (with a positive limit) and the rule
  application both fail with that error and leave the ledger as it was.
\<close>

theorem malformed_pattern_raises:
  assumes "active r" and "\<forall>d. search (pattern r) d = Inl ReError"
    and "active_rules l = r # rs"
    and "t \<in> set (transactions l)" and "category_id t = None" and "0 < limit"
  shows "rule_matches search r d a = Inl ReError
       \<and> session_scope af (\<lambda>s. dry_run_matches search s limit) l = (l, Inl ReError)
       \<and> session_scope af (apply_rules search) l = (l, Inl ReError)"
proof -
  have m: "rule_matches search r d' a' = Inl ReError" for d' a'
    using assms(1,2) by (simp add: rule_matches_malformed)
  have dl: "txns \<noteq> [] \<Longrightarrow> dry_run_loop search (r # rs) txns acc = Inl ReError" for txns acc
    by (cases txns) (simp_all add: m)
  have al: "txns \<noteq> [] \<Longrightarrow> apply_loop search (r # rs) txns s u = Inl ReError" for txns s u
    by (cases txns) (simp_all add: m)
  let ?unc = "filter (\<lambda>t. category_id t = None) (transactions l)"
  from assms(4,5) have "t \<in> set ?unc" by simp
  then have ne: "?unc \<noteq> []" by (metis empty_iff list.set(1))
  then have "sort_key (\<lambda>t. - date_key (txn_date t)) ?unc \<noteq> []"
    by (metis length_sort length_0_conv)
  with assms(6) have "dry_run_transactions l limit \<noteq> []"
    by (simp add: dry_run_transactions_def)
  moreover from ne have "uncategorized l \<noteq> []"
    unfolding uncategorized_def by (metis length_sort length_0_conv)
  ultimately show ?thesis
    using m [of d a] assms(3)
    by (simp add: session_scope_def dry_run_matches_open apply_rules_open dl al)
qed

theorem malformed_pattern_raises_witness:
  "active malformed_rule
   \<and> (\<forall>d. literal_search (pattern malformed_rule) d = Inl ReError)
   \<and> active_rules malformed_ledger = malformed_rule # tl (active_rules malformed_ledger)
   \<and> walmart_txn \<in> set (transactions malformed_ledger)
   \<and> category_id walmart_txn = None
   \<and> rule_matches literal_search malformed_rule (description walmart_txn) (amount walmart_txn)
       = Inl ReError
   \<and> session_scope False (\<lambda>s. dry_run_matches literal_search s 1) malformed_ledger
       = (malformed_ledger, Inl ReError)
   \<and> session_scope False (apply_rules literal_search) malformed_ledger
       = (malformed_ledger, Inl ReError)"
proof -
  have a: "active malformed_rule"
    by (simp add: malformed_rule_def)
  have e: "\<forall>d. literal_search (pattern malformed_rule) d = Inl ReError"
    by (simp add: malformed_rule_def literal_search_def plain_char_def)
  have r: "active_rules malformed_ledger = malformed_rule # tl (active_rules malformed_ledger)"
    by code_simp
  have t: "walmart_txn \<in> set (transactions malformed_ledger)"
    by (simp add: malformed_ledger_def example_ledger_def)
  have u: "category_id walmart_txn = None"
    by (simp add: walmart_txn_def)
  have l: "(0::nat) < 1" by simp
  from malformed_pattern_raises
         [where search = literal_search and r = malformed_rule and l = malformed_ledger
            and rs = "tl (active_rules malformed_ledger)" and t = walmart_txn and limit = 1
            and d = "description walmart_txn" and a = "amount walmart_txn" and af = False,
          OF a e r t u l]
    a e r t u
  show ?thesis by simp
qed


text \<open>
  A rule matches only where the library finds its pattern, and the pattern is a regular
  expression: a pattern with an alternation bar matches a description that does not
  contain the text of the pattern.
\<close>

lemma rule_matches_search:
  "rule_matches search r d a = Inr True \<Longrightarrow> search (pattern r) d = Inr True"
  by (auto simp: rule_matches_def split: if_splits sum.splits)

lemma alternation_matches:
  "pattern (rules example_ledger ! 0) = ''wal|mart''
   \<and> rule_matches literal_search (rules example_ledger ! 0) ''WALMART #123'' (- 4250) = Inr True
   \<and> \<not> contains (map lower_char ''wal|mart'') (map lower_char ''WALMART #123'')"
  by code_simp

section \<open>The batch generator on the committed ledger\<close>

lemma generate_loop_refines:
  assumes "distinct (map txn_id txns)" and "txn_id ` set txns \<inter> pending_ids s = {}"
    and "new_transactions s = []"
  shows "(case generate_loop txns s c of
            Inl e \<Rightarrow> ledger_generate_all txns (committed s) = Inl e
          | Inr (s', c') \<Rightarrow> ledger_generate_all txns (committed s) = Inr (committed s')
                            \<and> c' = c + length txns \<and> new_transactions s' = [])"
  using assms
proof (induction txns arbitrary: s c)
  case Nil
  then show ?case by simp
next
  case (Cons t txns)
  from Cons.prems(2) have fresh: "txn_id t \<notin> pending_ids s" by simp
  note step = generate_refines [OF Cons.prems(3) fresh]
  show ?case
  proof (cases "generate_postings_for_transaction s t")
    case (Inl e)
    with step show ?thesis by simp
  next
    case (Inr x)
    obtain s1 n where x: "x = (s1, n)" by (cases x)
    from step Inr x have l1: "ledger_generate (committed s) t = Inr (committed s1)"
      and p1: "pending_ids s1 \<subseteq> insert (txn_id t) (pending_ids s)"
      and n1: "new_transactions s1 = []"
      by simp_all
    from Cons.prems have d: "distinct (map txn_id txns)" by simp
    from Cons.prems have "txn_id ` set txns \<inter> insert (txn_id t) (pending_ids s) = {}"
      by auto
    with p1 have "txn_id ` set txns \<inter> pending_ids s1 = {}" by blast
    from Cons.IH [OF d this n1, of "c + 1"] Inr x l1 show ?thesis
      by (auto split: sum.splits)
  qed
qed

lemma ledger_generate_frame:
  assumes "ledger_generate l txn = Inr l'"
  shows "transactions l' = transactions l" and "categories l' = categories l"
    and "rules l' = rules l"
  using assms
  by (auto simp: ledger_generate_def Let_def split: sum.splits if_splits
      dest: ledger_counterpart_frame)

lemma ledger_generate_postings_of:
  assumes "ledger_generate l txn = Inr l'"
  shows "\<exists>a. postings_of l' (txn_id txn) = two_postings txn a"
    and "i \<noteq> txn_id txn \<Longrightarrow> postings_of l' i = postings_of l i"
proof -
  from ledger_generate_postings [OF assms] obtain a where
    p: "postings l' = filter (\<lambda>p. transaction_id p \<noteq> txn_id txn) (postings l) @ two_postings txn a"
    ..
  then have "postings_of l' (txn_id txn) = two_postings txn a"
    by (simp add: postings_of_def)
  then show "\<exists>a. postings_of l' (txn_id txn) = two_postings txn a" ..
  assume i: "i \<noteq> txn_id txn"
  have "filter (\<lambda>p. transaction_id p = i) (two_postings txn a) = []"
    using i by (simp add: two_postings_def)
  moreover have "filter (\<lambda>x. transaction_id x \<noteq> txn_id txn \<and> transaction_id x = i) (postings l)
                   = filter (\<lambda>p. transaction_id p = i) (postings l)"
    using i by (intro filter_cong) auto
  ultimately show "postings_of l' i = postings_of l i"
    by (simp add: postings_of_def p)
qed

lemma ledger_generate_all_effect:
  assumes "ledger_generate_all txns l = Inr l'" and "distinct (map txn_id txns)"
  shows "transactions l' = transactions l \<and> categories l' = categories l \<and> rules l' = rules l
       \<and> (\<forall>i. i \<notin> txn_id ` set txns \<longrightarrow> postings_of l' i = postings_of l i)
       \<and> (\<forall>t \<in> set txns. \<exists>a. postings_of l' (txn_id t) = two_postings t a)"
  using assms
proof (induction txns arbitrary: l)
  case Nil
  then show ?case by simp
next
  case (Cons t txns)
  from Cons.prems(1) obtain l1 where l1: "ledger_generate l t = Inr l1"
    and rest: "ledger_generate_all txns l1 = Inr l'"
    by (auto split: sum.splits)
  from Cons.prems(2) have d: "distinct (map txn_id txns)" and t: "txn_id t \<notin> txn_id ` set txns"
    by simp_all
  note ih = Cons.IH [OF rest d]
  note fr = ledger_generate_frame [OF l1]
  note po = ledger_generate_postings_of [OF l1]
  from ih t po(1) have "\<exists>a. postings_of l' (txn_id t) = two_postings t a" by simp
  moreover have "\<forall>i. i \<notin> txn_id ` set (t # txns) \<longrightarrow> postings_of l' i = postings_of l i"
    using ih po(2) by simp
  ultimately show ?case using ih fr by simp
qed

lemma generate_all_postings_open:
  "generate_all_postings (open_session af l) limit =
     generate_loop (take limit (unposted l)) (open_session af l) 0"
proof -
  have "filter (\<lambda>t. \<not> (\<exists>p \<in> set (postings l). transaction_id p = txn_id t)) (transactions l)
          = unposted l"
    unfolding unposted_def
    by (intro filter_cong) (auto simp: postings_of_def filter_empty_conv)
  then show ?thesis
    by (simp add: generate_all_postings_def Let_def autoflushed_clean)
qed

lemma distinct_take_unposted:
  assumes "distinct (map txn_id (transactions l))"
  shows "distinct (map txn_id (take limit (unposted l)))"
proof -
  from assms have "distinct (map txn_id (unposted l))"
    unfolding unposted_def by (rule distinct_map_filter)
  then have "distinct (take limit (map txn_id (unposted l)))" by (rule distinct_take)
  then show ?thesis by (simp add: take_map)
qed

text \<open>
  C8. A committed run of the batch processes the transactions that have no posting, in
  table order and at most \<open>limit\<close> of them, and returns their number; each of them then
  has two postings. Every other transaction, in particular every transaction that
  already had postings, keeps its postings, and the transactions, categories and rules
  are left as they were.
\<close>

theorem generate_all_postings_frame:
  assumes "distinct (map txn_id (transactions l))"
    and "session_scope af (\<lambda>s. generate_all_postings s limit) l = (l', Inr n)"
  shows "n = length (take limit (unposted l))
       \<and> (\<forall>t \<in> set (take limit (unposted l)). length (postings_of l' (txn_id t)) = 2)
       \<and> (\<forall>t \<in> set (transactions l). t \<notin> set (take limit (unposted l)) \<longrightarrow>
            postings_of l' (txn_id t) = postings_of l (txn_id t))
       \<and> transactions l' = transactions l \<and> categories l' = categories l \<and> rules l' = rules l"
proof -
  let ?sel = "take limit (unposted l)"
  note d = distinct_take_unposted [OF assms(1), of limit]
  from assms(2) obtain s' where
    run: "generate_loop ?sel (open_session af l) 0 = Inr (s', n)" and l': "commit s' = Inr l'"
    by (auto simp: session_scope_def generate_all_postings_open split: sum.splits)
  from generate_loop_refines [OF d, of "open_session af l" 0] run
  have all': "ledger_generate_all ?sel l = Inr (committed s')" and n: "n = length ?sel"
    and "new_transactions s' = []"
    by simp_all
  with l' have all: "ledger_generate_all ?sel l = Inr l'"
    by (simp add: commit_clean)
  note eff = ledger_generate_all_effect [OF all d]
  have two: "length (two_postings t a) = 2" for t a
    by (simp add: two_postings_def)
  have "postings_of l' (txn_id t) = postings_of l (txn_id t)"
    if t: "t \<in> set (transactions l)" "t \<notin> set ?sel" for t
  proof -
    have "txn_id t \<notin> txn_id ` set ?sel"
    proof
      assume "txn_id t \<in> txn_id ` set ?sel"
      then obtain x where x: "x \<in> set ?sel" "txn_id x = txn_id t" by auto
      from x(1) have "x \<in> set (unposted l)" by (rule in_set_takeD)
      then have "x \<in> set (transactions l)" by (simp add: unposted_def)
      moreover from assms(1) have "inj_on txn_id (set (transactions l))"
        by (simp add: distinct_map)
      ultimately have "x = t" using x(2) t(1) by (auto dest: inj_onD)
      with x(1) t(2) show False by simp
    qed
    with eff show ?thesis by simp
  qed
  moreover have "length (postings_of l' (txn_id t)) = 2" if "t \<in> set ?sel" for t
    using eff that two by fastforce
  ultimately show ?thesis using n eff by blast
qed

lemma posted_distinct: "distinct (map txn_id (transactions posted_ledger))"
  by code_simp

lemma batch_run:
  "session_scope False (\<lambda>s. generate_all_postings s 1) posted_ledger = (batch_ledger, Inr 1)"
  by code_simp

theorem generate_all_postings_frame_witness:
  "distinct (map txn_id (transactions posted_ledger))
   \<and> session_scope False (\<lambda>s. generate_all_postings s 1) posted_ledger = (batch_ledger, Inr 1)
   \<and> take 1 (unposted posted_ledger) = [payroll_txn]
   \<and> length (postings_of batch_ledger (txn_id payroll_txn)) = 2
   \<and> postings_of batch_ledger (txn_id walmart_txn) = postings_of posted_ledger (txn_id walmart_txn)
   \<and> postings_of posted_ledger (txn_id walmart_txn) \<noteq> []
   \<and> postings_of batch_ledger (txn_id zero_txn) = []
   \<and> transactions batch_ledger = transactions posted_ledger"
proof -
  have sel: "take 1 (unposted posted_ledger) = [payroll_txn]"
    by code_simp
  have w: "walmart_txn \<in> set (transactions posted_ledger)" "walmart_txn \<noteq> payroll_txn"
    and z: "zero_txn \<in> set (transactions posted_ledger)" "zero_txn \<noteq> payroll_txn"
    by (simp_all add: posted_ledger_def example_ledger_def walmart_txn_def payroll_txn_def
          zero_txn_def)
  have old: "postings_of posted_ledger (txn_id walmart_txn) \<noteq> []"
    "postings_of posted_ledger (txn_id zero_txn) = []"
    by code_simp+
  from generate_all_postings_frame [OF posted_distinct batch_run] sel w z old
  have "length (postings_of batch_ledger (txn_id payroll_txn)) = 2
      \<and> postings_of batch_ledger (txn_id walmart_txn) = postings_of posted_ledger (txn_id walmart_txn)
      \<and> postings_of batch_ledger (txn_id zero_txn) = []
      \<and> transactions batch_ledger = transactions posted_ledger"
    by simp
  with posted_distinct batch_run sel old show ?thesis by simp
qed


section \<open>The import adapter on the committed ledger\<close>









text \<open>Both accepted formats give the same date.\<close>

lemma parse_date_formats:
  "parse_date ''2024-03-05'' = Inr (2024, 3, 5)" "parse_date ''03/05/2024'' = Inr (2024, 3, 5)"
  by code_simp+






end
